theory Spec2Isabelle
  imports Complex_Main "HOL-Library.Multiset" "HOL-Library.Sublist"
begin

section \<open>Python values shared by the modules\<close>

text \<open>
  Python integers are unbounded, so they are \<^typ>\<open>int\<close>; Python's floor division
  \<^verbatim>\<open>//\<close> on integers is HOL's \<open>div\<close> on \<^typ>\<open>int\<close> (both round towards minus infinity).
  A Python \<^verbatim>\<open>str\<close> is a sequence of code points; the pagination code only takes its
  length and slices it, so the text is a list over any element type.
\<close>

datatype py_error = ZeroDivisionError

text \<open>
  \<^verbatim>\<open>s[a:b]\<close> for integers \<^verbatim>\<open>a\<close>, \<^verbatim>\<open>b\<close>: a negative bound counts from the end, every
  bound is cut to the range \<^verbatim>\<open>0..len(s)\<close>, and an empty range gives the empty sequence.
\<close>

definition slice_bound :: "int \<Rightarrow> int \<Rightarrow> nat" where
  "slice_bound n i = nat (if i < 0 then max 0 (n + i) else min i n)"

definition py_slice :: "'a list \<Rightarrow> int \<Rightarrow> int \<Rightarrow> 'a list" where
  "py_slice s a b =
     (let n = int (length s); lo = slice_bound n a; hi = slice_bound n b
      in take (hi - lo) (drop lo s))"

section \<open>server.py: pagination in \<^verbatim>\<open>get_paper_content\<close>\<close>

text \<open>
  \<^verbatim>\<open>get_paper_content\<close> and its twin \<^verbatim>\<open>_get_paper_content_internal\<close> hold the same
  statements. Line 264 clamps \<^verbatim>\<open>max_chars\<close>, line 265 clamps \<^verbatim>\<open>page\<close>, lines 336 to
  347 compute the page count and cut the page out of the text.
\<close>

record 'a page_result =
  page_content :: "'a list"
  page_number :: int
  total_pages :: int
  total_chars :: int


text \<open>Line 265: \<^verbatim>\<open>page = max(1, page)\<close>.\<close>

definition clamp_page :: "int \<Rightarrow> int" where
  "clamp_page page = max 1 page"

text \<open>
  Lines 336 to 347, for the values of \<^verbatim>\<open>page\<close> and \<^verbatim>\<open>max_chars\<close> that reach them.
  The division raises when \<^verbatim>\<open>max_chars\<close> is zero.
\<close>

definition page_slice :: "'a list \<Rightarrow> int \<Rightarrow> int \<Rightarrow> py_error + 'a page_result" where
  "page_slice content page max_chars =
     (if max_chars = 0 then Inl ZeroDivisionError
      else
        let total_chars = int (length content);
            total_pages = max 1 ((total_chars + max_chars - 1) div max_chars);
            page = (if page > total_pages then total_pages else page);
            start_idx = (page - 1) * max_chars;
            end_idx = min (start_idx + max_chars) total_chars
        in Inr \<lparr>page_content = py_slice content start_idx end_idx,
                page_number = page,
                total_pages = total_pages,
                total_chars = total_chars\<rparr>)"

text \<open>
  The paginator of the specification, \<^verbatim>\<open>paginate(text, page_number, page_char_limit)\<close>:
  the page clamp of line 265 followed by lines 336 to 347.
\<close>

definition paginate :: "'a list \<Rightarrow> int \<Rightarrow> int \<Rightarrow> py_error + 'a page_result" where
  "paginate content page max_chars = page_slice content (clamp_page page) max_chars"


text \<open>The page texts of pages \<open>1\<close> to \<open>total_pages\<close>, in order.\<close>

definition content_of :: "py_error + 'a page_result \<Rightarrow> 'a list" where
  "content_of r = (case r of Inl _ \<Rightarrow> [] | Inr p \<Rightarrow> page_content p)"

definition pages_of :: "py_error + 'a page_result \<Rightarrow> int" where
  "pages_of r = (case r of Inl _ \<Rightarrow> 0 | Inr p \<Rightarrow> total_pages p)"

definition all_pages :: "'a list \<Rightarrow> int \<Rightarrow> 'a list list" where
  "all_pages content max_chars =
     map (\<lambda>p. content_of (paginate content p max_chars))
         [1 .. pages_of (paginate content 1 max_chars)]"


text \<open>The page count of lines 337 and 338, named for the statements below.\<close>

definition page_count :: "'a list \<Rightarrow> int \<Rightarrow> int" where
  "page_count content max_chars = max 1 ((int (length content) + max_chars - 1) div max_chars)"

section \<open>arxiv\_search.py: ranking of search results\<close>

text \<open>
  A \<^verbatim>\<open>datetime\<close> without time zone is its number of microseconds on the wall clock;
  the \<^verbatim>\<open>days\<close> of a \<^verbatim>\<open>timedelta\<close> are the floor of the difference in days.
  Python floats are read as real numbers.
\<close>

type_synonym datetime = int

definition usec_per_day :: int where
  "usec_per_day = 86400000000"















section \<open>paper\_cache.py: the cache table and its cleanup\<close>

text \<open>
  A row of the table \<^verbatim>\<open>papers\<close> (the dataclass \<^verbatim>\<open>CachedPaper\<close> has the same fields).
  \<^verbatim>\<open>authors\<close> is the JSON text that \<^verbatim>\<open>json.dumps\<close> made of the author list. The two
  time columns hold \<^verbatim>\<open>datetime.now().isoformat()\<close>; that text has fixed-width,
  zero-padded fields from the year down to the second and an optional fraction of six
  digits, so the byte order in which SQLite compares two such texts is the order of
  the two times (lemma \<open>isoformat_order\<close> in the last section), and the model keeps
  the time itself.
\<close>

record cached_paper =
  arxiv_id :: string
  title :: string
  abstract :: string
  authors :: string
  published :: string
  pdf_path :: "string option"
  markdown_path :: "string option"
  file_size :: int
  created_at :: datetime
  last_accessed :: datetime

text \<open>
  The state the cache works on: the rows of the table in the order of their row ids,
  and the files on disk with their sizes (the cache asks the disk only whether a path
  exists and how large the file is). The two settings of \<^verbatim>\<open>__init__\<close> that the policy
  reads are \<^verbatim>\<open>max_size_bytes\<close> and \<^verbatim>\<open>max_age_days\<close>.
\<close>

record cache_state =
  papers :: "cached_paper list"
  files :: "string \<rightharpoonup> nat"

record cache_config =
  max_size_bytes :: int
  max_age_days :: int

text \<open>
  \<^verbatim>\<open>if path and os.path.exists(path): file_size += os.path.getsize(path)\<close>; a path
  that is \<^verbatim>\<open>None\<close> or empty adds nothing.
\<close>

definition path_size :: "(string \<rightharpoonup> nat) \<Rightarrow> string option \<Rightarrow> int" where
  "path_size fs path =
     (case path of
        None \<Rightarrow> 0
      | Some p \<Rightarrow> if p = [] then 0 else (case fs p of None \<Rightarrow> 0 | Some n \<Rightarrow> int n))"

text \<open>
  \<^verbatim>\<open>_delete_paper_files\<close>, lines 319 to 331. A failing \<^verbatim>\<open>os.remove\<close> is caught and only
  printed there; the model removes the file.
\<close>

definition remove_file :: "(string \<rightharpoonup> nat) \<Rightarrow> string option \<Rightarrow> (string \<rightharpoonup> nat)" where
  "remove_file fs path =
     (case path of None \<Rightarrow> fs | Some p \<Rightarrow> if p = [] then fs else fs(p := None))"

definition delete_paper_files ::
  "(string \<rightharpoonup> nat) \<Rightarrow> string option \<Rightarrow> string option \<Rightarrow> (string \<rightharpoonup> nat)" where
  "delete_paper_files fs pdf md = remove_file (remove_file fs pdf) md"

text \<open>\<^verbatim>\<open>DELETE FROM papers WHERE arxiv_id = ?\<close>.\<close>

definition delete_row :: "string \<Rightarrow> cached_paper list \<Rightarrow> cached_paper list" where
  "delete_row ident rows = filter (\<lambda>r. arxiv_id r \<noteq> ident) rows"

text \<open>
  \<^verbatim>\<open>INSERT OR REPLACE\<close> on the primary key \<^verbatim>\<open>arxiv_id\<close>: a row with the same key is
  deleted, the new row is inserted.
\<close>

definition insert_or_replace :: "cached_paper \<Rightarrow> cached_paper list \<Rightarrow> cached_paper list" where
  "insert_or_replace row rows = delete_row (arxiv_id row) rows @ [row]"

text \<open>\<^verbatim>\<open>SELECT * FROM papers WHERE arxiv_id = ?\<close> with \<^verbatim>\<open>fetchone\<close>.\<close>

definition select_paper :: "string \<Rightarrow> cached_paper list \<Rightarrow> cached_paper option" where
  "select_paper ident rows = find (\<lambda>r. arxiv_id r = ident) rows"

text \<open>\<^verbatim>\<open>get_total_size\<close>, lines 254 to 259: \<^verbatim>\<open>SUM(file_size)\<close>, or 0 for no rows.\<close>

definition get_total_size :: "cache_state \<Rightarrow> int" where
  "get_total_size st = sum_list (map file_size (papers st))"

text \<open>
  Deleting one row with its files, as both sweeps do: \<^verbatim>\<open>_delete_paper_files\<close> and
  then the \<^verbatim>\<open>DELETE\<close> by key.
\<close>

definition evict :: "cached_paper \<Rightarrow> cache_state \<Rightarrow> cache_state" where
  "evict r st =
     st\<lparr>files := delete_paper_files (files st) (pdf_path r) (markdown_path r),
        papers := delete_row (arxiv_id r) (papers st)\<rparr>"

text \<open>
  The age sweep, lines 283 to 299: the expired rows are selected once, then each is
  deleted.
\<close>

definition cutoff_date :: "cache_config \<Rightarrow> datetime \<Rightarrow> datetime" where
  "cutoff_date cfg now = now - max_age_days cfg * usec_per_day"

definition expired :: "cache_config \<Rightarrow> datetime \<Rightarrow> cached_paper list \<Rightarrow> cached_paper list" where
  "expired cfg now rows = filter (\<lambda>r. created_at r < cutoff_date cfg now) rows"

fun evict_all :: "cached_paper list \<Rightarrow> cache_state \<Rightarrow> cache_state" where
  "evict_all [] st = st"
| "evict_all (r # rs) st = evict_all rs (evict r st)"

definition age_sweep :: "cache_config \<Rightarrow> datetime \<Rightarrow> cache_state \<Rightarrow> cache_state" where
  "age_sweep cfg now st = evict_all (expired cfg now (papers st)) st"

text \<open>
  \<^verbatim>\<open>SELECT ... ORDER BY file_size DESC LIMIT 1\<close>: a row of largest \<^verbatim>\<open>file_size\<close>, none
  for the empty table. SQL leaves open which of several largest rows comes first; the
  model takes the first in table order.
\<close>

fun largest :: "cached_paper list \<Rightarrow> cached_paper option" where
  "largest [] = None"
| "largest (r # rs) =
     (case largest rs of
        None \<Rightarrow> Some r
      | Some m \<Rightarrow> if file_size r < file_size m then Some m else Some r)"

text \<open>The size sweep, the loop of lines 302 to 317.\<close>

function size_sweep :: "cache_config \<Rightarrow> cache_state \<Rightarrow> cache_state" where
  "size_sweep cfg st =
     (if get_total_size st > max_size_bytes cfg then
        (case largest (papers st) of
           None \<Rightarrow> st
         | Some r \<Rightarrow> size_sweep cfg (evict r st))
      else st)"
  by pat_completeness auto
termination
proof (relation "measure (\<lambda>(cfg, st). length (papers st))")
  show "wf (measure (\<lambda>(cfg, st). length (papers st)))" by simp
next
  fix cfg :: cache_config and st :: cache_state and r
  assume "largest (papers st) = Some r"
  then have "r \<in> set (papers st)"
  proof (induction "papers st" arbitrary: r st)
    case Nil
    then show ?case by simp
  next
    case (Cons a rows)
    from Cons.hyps(2)[symmetric] Cons.prems
    have "r = a \<or> largest rows = Some r"
      by (auto split: option.splits if_splits)
    moreover have "largest rows = Some r \<Longrightarrow> r \<in> set rows"
      using Cons.hyps(1)[of "st\<lparr>papers := rows\<rparr>" r] by simp
    ultimately show ?case using Cons.hyps(2)[symmetric] by auto
  qed
  then have "length (delete_row (arxiv_id r) (papers st)) < length (papers st)"
    unfolding delete_row_def by (intro length_filter_less[of r]) auto
  then show "((cfg, evict r st), (cfg, st)) \<in> measure (\<lambda>(cfg, st). length (papers st))"
    by (simp add: evict_def)
qed

text \<open>\<^verbatim>\<open>cleanup\<close>, lines 275 to 317; \<open>now\<close> is the clock reading of line 284.\<close>

definition cleanup :: "cache_config \<Rightarrow> datetime \<Rightarrow> cache_state \<Rightarrow> cache_state" where
  "cleanup cfg now st = size_sweep cfg (age_sweep cfg now st)"

text \<open>
  \<^verbatim>\<open>save\<close>, lines 144 to 204. \<open>now\<close> is the clock reading of line 169 and
  \<open>now_cleanup\<close> the later one inside \<^verbatim>\<open>cleanup\<close>; \<open>authors_json\<close> is the value of
  \<^verbatim>\<open>json.dumps(authors, ensure_ascii=False)\<close>. The result is the returned
  \<^verbatim>\<open>CachedPaper\<close> and the new state.
\<close>

definition save_row ::
  "datetime \<Rightarrow> cache_state \<Rightarrow> string \<Rightarrow> string \<Rightarrow> string \<Rightarrow> string \<Rightarrow> string \<Rightarrow>
   string option \<Rightarrow> string option \<Rightarrow> cached_paper" where
  "save_row now st ident ttl abstr authors_json publ pdf md =
     \<lparr>arxiv_id = ident, title = ttl, abstract = abstr, authors = authors_json,
      published = publ, pdf_path = pdf, markdown_path = md,
      file_size = path_size (files st) pdf + path_size (files st) md,
      created_at = now, last_accessed = now\<rparr>"

definition save ::
  "cache_config \<Rightarrow> datetime \<Rightarrow> datetime \<Rightarrow> cache_state \<Rightarrow> string \<Rightarrow> string \<Rightarrow> string \<Rightarrow>
   string \<Rightarrow> string \<Rightarrow> string option \<Rightarrow> string option \<Rightarrow> cached_paper \<times> cache_state" where
  "save cfg now now_cleanup st ident ttl abstr authors_json publ pdf md =
     (let row = save_row now st ident ttl abstr authors_json publ pdf md;
          st1 = st\<lparr>papers := insert_or_replace row (papers st)\<rparr>
      in (row, cleanup cfg now_cleanup st1))"



text \<open>Rows and states for the worked examples: a row of a given key, size and creation time.\<close>

definition example_row :: "string \<Rightarrow> int \<Rightarrow> datetime \<Rightarrow> cached_paper" where
  "example_row ident bytes created =
     \<lparr>arxiv_id = ident, title = ''t'', abstract = ''a'', authors = ''[]'',
      published = ''2025-01-01'', pdf_path = None, markdown_path = None,
      file_size = bytes, created_at = created, last_accessed = created\<rparr>"

definition example_state :: "cached_paper list \<Rightarrow> cache_state" where
  "example_state rows = \<lparr>papers = rows, files = Map.empty\<rparr>"

section \<open>pdf\_converter.py: the extraction chain\<close>

text \<open>
  Text is a list of characters with code points below 256. \<^verbatim>\<open>str.strip()\<close> removes
  the characters for which \<^verbatim>\<open>str.isspace()\<close> holds from both ends: tab, line feed,
  vertical tab, form feed, carriage return, the separators 28 to 31, space, and the
  code points 133 and 160.
\<close>

definition py_isspace :: "char \<Rightarrow> bool" where
  "py_isspace c = (of_char c \<in> {9, 10, 11, 12, 13, 28, 29, 30, 31, 32, 133, 160 :: nat})"

definition strip :: "string \<Rightarrow> string" where
  "strip s = rev (dropWhile py_isspace (rev (dropWhile py_isspace s)))"

text \<open>The truth value of an optional string: \<^verbatim>\<open>None\<close> and the empty string are false.\<close>

definition truthy :: "string option \<Rightarrow> bool" where
  "truthy s = (case s of None \<Rightarrow> False | Some t \<Rightarrow> t \<noteq> [])"

text \<open>
  What the two engines do on the file at hand. \<^verbatim>\<open>self._markitdown.convert(pdf_path)\<close>
  raises with a message or returns a result with its \<^verbatim>\<open>text_content\<close>;
  \<^verbatim>\<open>pymupdf.open\<close> raises or gives the pages, each with its \<^verbatim>\<open>get_text()\<close>. An engine
  that is not installed is \<open>None\<close> (\<^verbatim>\<open>self._markitdown\<close> is \<^verbatim>\<open>None\<close>,
  \<^verbatim>\<open>self._pymupdf_available\<close> is false).
\<close>

datatype markitdown_run = MarkitdownRaises string | MarkitdownReturns string

datatype pymupdf_run = PymupdfRaises string | PymupdfPages "string list"

datatype engine = Markitdown | Pymupdf

text \<open>
  The exceptions of \<^verbatim>\<open>convert\<close>: the missing file of line 52, the small file of line 57
  with its size, and the failed conversion of line 84 with the message of the first
  engine when there is one (\<^verbatim>\<open>error_msg or ...\<close>).
\<close>

datatype convert_error = FileNotFoundError | FileTooSmall nat | ConversionFailed "string option"

record convert_result =
  engines_called :: "engine list"
  outcome :: "convert_error + string"
  written_to :: "string option"

text \<open>The decimal digits of a page number, as an f-string writes it.\<close>

fun decimal :: "nat \<Rightarrow> string" where
  "decimal n = (if n < 10 then [char_of (48 + n)] else decimal (n div 10) @ [char_of (48 + n mod 10)])"

fun join :: "string \<Rightarrow> string list \<Rightarrow> string" where
  "join sep [] = []"
| "join sep [x] = x"
| "join sep (x # y # ys) = x @ sep @ join sep (y # ys)"

text \<open>
  \<^verbatim>\<open>_convert_with_pymupdf\<close>, lines 97 to 111: every page whose text is not blank is put
  under the heading \<^verbatim>\<open>## Page n\<close>, and the pages are joined with a rule.
\<close>

definition page_part :: "nat \<times> string \<Rightarrow> string" where
  "page_part np = ''## Page '' @ decimal (fst np) @ [CHR 0x0A, CHR 0x0A] @ snd np"

definition convert_with_pymupdf :: "string list \<Rightarrow> string" where
  "convert_with_pymupdf pages =
     join ([CHR 0x0A, CHR 0x0A] @ ''---'' @ [CHR 0x0A, CHR 0x0A])
       (map page_part (filter (\<lambda>np. strip (snd np) \<noteq> []) (enumerate 1 pages)))"

text \<open>
  Lines 62 to 71, the first engine: the value of \<^verbatim>\<open>markdown_content\<close>, the value of
  \<^verbatim>\<open>error_msg\<close> and the engines called so far. The test of line 67 guards a
  \<^verbatim>\<open>print\<close> only.
\<close>

definition first_engine ::
  "markitdown_run option \<Rightarrow> string option \<times> string option \<times> engine list" where
  "first_engine markitdown =
     (case markitdown of
        None \<Rightarrow> (None, None, [])
      | Some (MarkitdownRaises e) \<Rightarrow> (None, Some e, [Markitdown])
      | Some (MarkitdownReturns t) \<Rightarrow> (Some t, None, [Markitdown]))"

text \<open>
  Lines 73 to 80, the second engine, entered when \<^verbatim>\<open>markdown_content\<close> is false and
  pymupdf is available; an exception leaves \<^verbatim>\<open>markdown_content\<close> as it was.
\<close>

definition second_engine ::
  "pymupdf_run option \<Rightarrow> string option \<Rightarrow> engine list \<Rightarrow> string option \<times> engine list" where
  "second_engine pymupdf markdown_content called =
     (if \<not> truthy markdown_content then
        (case pymupdf of
           None \<Rightarrow> (markdown_content, called)
         | Some (PymupdfRaises e) \<Rightarrow> (markdown_content, called @ [Pymupdf])
         | Some (PymupdfPages pages) \<Rightarrow> (Some (convert_with_pymupdf pages), called @ [Pymupdf]))
      else (markdown_content, called))"

text \<open>
  \<^verbatim>\<open>convert\<close>, lines 36 to 95. \<open>pdf_size\<close> is the size of the file at \<^verbatim>\<open>pdf_path\<close>, or
  \<open>None\<close> when there is no such file.
\<close>

definition convert ::
  "nat option \<Rightarrow> markitdown_run option \<Rightarrow> pymupdf_run option \<Rightarrow> string option \<Rightarrow> convert_result" where
  "convert pdf_size markitdown pymupdf output_path =
     (case pdf_size of
        None \<Rightarrow> \<lparr>engines_called = [], outcome = Inl FileNotFoundError, written_to = None\<rparr>
      | Some size_bytes \<Rightarrow>
          if size_bytes < 1000
          then \<lparr>engines_called = [], outcome = Inl (FileTooSmall size_bytes), written_to = None\<rparr>
          else
            (case first_engine markitdown of
               (content1, error_msg, called1) \<Rightarrow>
                 (case second_engine pymupdf content1 called1 of
                    (markdown_content, called) \<Rightarrow>
                      (case markdown_content of
                         None \<Rightarrow>
                           \<lparr>engines_called = called,
                            outcome = Inl (ConversionFailed (if truthy error_msg then error_msg else None)),
                            written_to = None\<rparr>
                       | Some t \<Rightarrow>
                           if t = [] \<or> length (strip t) < 50
                           then \<lparr>engines_called = called,
                                 outcome = Inl (ConversionFailed
                                                  (if truthy error_msg then error_msg else None)),
                                 written_to = None\<rparr>
                           else \<lparr>engines_called = called, outcome = Inr t,
                                 written_to = (if truthy output_path then output_path else None)\<rparr>))))"

section \<open>arxiv\_search.py: download and integrity check\<close>








section \<open>The text of a time stamp\<close>

text \<open>
  \<^verbatim>\<open>datetime.isoformat()\<close> of a time without zone writes \<^verbatim>\<open>YYYY-MM-DDTHH:MM:SS\<close> with
  every field at fixed width and padded with zeros, and appends \<^verbatim>\<open>.ffffff\<close> unless the
  microseconds are zero. SQLite compares two \<^verbatim>\<open>TEXT\<close> values byte by byte, a proper
  prefix being smaller.
\<close>

record py_datetime =
  year :: nat
  month :: nat
  day :: nat
  hour :: nat
  minute :: nat
  second :: nat
  microsecond :: nat

definition valid_datetime :: "py_datetime \<Rightarrow> bool" where
  "valid_datetime d =
     (year d < 10000 \<and> month d < 100 \<and> day d < 100 \<and> hour d < 100 \<and> minute d < 100 \<and>
      second d < 100 \<and> microsecond d < 1000000)"

fun fixed_width :: "nat \<Rightarrow> nat \<Rightarrow> string" where
  "fixed_width 0 n = []"
| "fixed_width (Suc w) n = fixed_width w (n div 10) @ [char_of (48 + n mod 10)]"

definition isoformat :: "py_datetime \<Rightarrow> string" where
  "isoformat d =
     fixed_width 4 (year d) @ ''-'' @ fixed_width 2 (month d) @ ''-'' @ fixed_width 2 (day d) @
     ''T'' @ fixed_width 2 (hour d) @ '':'' @ fixed_width 2 (minute d) @ '':'' @
     fixed_width 2 (second d) @
     (if microsecond d = 0 then [] else ''.'' @ fixed_width 6 (microsecond d))"

fun text_less :: "string \<Rightarrow> string \<Rightarrow> bool" where
  "text_less [] [] = False"
| "text_less [] (y # ys) = True"
| "text_less (x # xs) [] = False"
| "text_less (x # xs) (y # ys) =
     ((of_char x :: nat) < of_char y \<or> (x = y \<and> text_less xs ys))"

definition earlier :: "py_datetime \<Rightarrow> py_datetime \<Rightarrow> bool" where
  "earlier a b =
     (year a < year b \<or> (year a = year b \<and>
     (month a < month b \<or> (month a = month b \<and>
     (day a < day b \<or> (day a = day b \<and>
     (hour a < hour b \<or> (hour a = hour b \<and>
     (minute a < minute b \<or> (minute a = minute b \<and>
     (second a < second b \<or> (second a = second b \<and>
      microsecond a < microsecond b))))))))))))"

section \<open>Pagination: proofs\<close>

lemma py_slice_nonneg:
  "0 \<le> a \<Longrightarrow> 0 \<le> b \<Longrightarrow> py_slice s a b = take (nat b - nat a) (drop (nat a) s)"
  by (auto simp: py_slice_def slice_bound_def Let_def min_def)

lemma concat_chunks:
  "concat (map (\<lambda>k. take L (drop (k * L) s)) [0..<T]) = take (T * L) s"
proof (induction T)
  case 0
  show ?case by simp
next
  case (Suc T)
  have "take (T * L) s @ take L (drop (T * L) s) = take (T * L + L) s"
    by (simp add: take_add)
  with Suc show ?case by (simp add: add.commute)
qed

lemma upto_as_upt: "0 \<le> T \<Longrightarrow> [1 .. T] = map (\<lambda>k. int k + 1) [0..<nat T]"
proof (induction "nat T" arbitrary: T)
  case 0
  then show ?case by simp
next
  case (Suc n)
  then have T: "T = int n + 1" by linarith
  have "[1 .. int n + 1] = [1 .. int n] @ [int n + 1]"
    by (simp add: upto_rec2)
  moreover have "[1 .. int n] = map (\<lambda>k. int k + 1) [0..<nat (int n)]"
    using Suc.hyps(1)[of "int n"] by simp
  moreover have "nat (int n + 1) = Suc n" by simp
  ultimately show ?case using T by simp
qed

lemma pages_cover:
  assumes "0 < L"
  shows "n \<le> max 1 ((n + L - 1) div L) * (L::int)"
proof -
  let ?m = "n + L - 1"
  have "?m = (?m div L) * L + ?m mod L" by simp
  moreover have "?m mod L < L" using assms by simp
  ultimately have "n \<le> (?m div L) * L" by linarith
  also have "\<dots> \<le> max 1 (?m div L) * L"
    using assms by (intro mult_right_mono) auto
  finally show ?thesis .
qed

lemma ceil_div:
  assumes "0 < L"
  shows "(n + L - 1) div L = \<lceil>real_of_int n / real_of_int L\<rceil>"
proof -
  let ?q = "(- n) div L" and ?r = "(- n) mod L"
  have decomp: "- n = L * ?q + ?r" by simp
  have r: "0 \<le> ?r" "?r < L" using assms by simp_all
  have "n + L - 1 = L * (- ?q) + (L - 1 - ?r)"
    using decomp by (simp add: algebra_simps)
  moreover have "0 \<le> L - 1 - ?r" "L - 1 - ?r < L" using r by linarith+
  ultimately have "(n + L - 1) div L = - ?q"
    by (rule int_div_pos_eq)
  then show ?thesis by (simp add: ceiling_divide_eq_div)
qed


lemma py_slice_page:
  assumes "0 \<le> a" "0 < L"
  shows "py_slice s a (min (a + L) (int (length s))) = take (nat L) (drop (nat a) s)"
proof -
  have "py_slice s a (min (a + L) (int (length s)))
        = take (nat (min (a + L) (int (length s))) - nat a) (drop (nat a) s)"
    using assms by (intro py_slice_nonneg) auto
  also have "\<dots> = take (nat L) (drop (nat a) s)"
  proof (cases "a \<le> int (length s)")
    case True
    have "nat (min (a + L) (int (length s))) - nat a = min (nat L) (length (drop (nat a) s))"
      using assms True by (simp add: min_def) linarith
    then show ?thesis by (simp add: min_def)
  next
    case False
    then show ?thesis using assms by simp
  qed
  finally show ?thesis .
qed

lemma page_slice_eq:
  assumes "0 < L" "1 \<le> q"
  shows "page_slice content q L =
         Inr \<lparr>page_content = take (nat L) (drop (nat ((min q (page_count content L) - 1) * L)) content),
              page_number = min q (page_count content L),
              total_pages = page_count content L,
              total_chars = int (length content)\<rparr>"
proof -
  let ?T = "page_count content L"
  let ?p = "min q ?T"
  have T: "1 \<le> ?T" by (simp add: page_count_def)
  then have "0 \<le> (?p - 1) * L" using assms by simp
  then have sl: "py_slice content ((?p - 1) * L) (min ((?p - 1) * L + L) (int (length content)))
        = take (nat L) (drop (nat ((?p - 1) * L)) content)"
    using assms(1) by (rule py_slice_page)
  have p: "(if q > ?T then ?T else q) = ?p" by auto
  have "page_slice content q L =
        Inr \<lparr>page_content = py_slice content ((?p - 1) * L) (min ((?p - 1) * L + L) (int (length content))),
             page_number = ?p, total_pages = ?T, total_chars = int (length content)\<rparr>"
    unfolding page_slice_def Let_def page_count_def[symmetric] p using assms(1) by simp
  then show ?thesis unfolding sl .
qed

lemma paginate_eq:
  assumes "0 < L"
  shows "paginate content p L =
         Inr \<lparr>page_content = take (nat L) (drop (nat ((min (max 1 p) (page_count content L) - 1) * L)) content),
              page_number = min (max 1 p) (page_count content L),
              total_pages = page_count content L,
              total_chars = int (length content)\<rparr>"
  unfolding paginate_def clamp_page_def using assms by (intro page_slice_eq) auto


lemma all_pages_eq:
  assumes "0 < L"
  shows "all_pages content L =
         map (\<lambda>k. take (nat L) (drop (k * nat L) content)) [0..<nat (page_count content L)]"
proof -
  let ?T = "page_count content L"
  have T: "1 \<le> ?T" by (simp add: page_count_def)
  have pages: "pages_of (paginate content 1 L) = ?T"
    by (simp add: paginate_eq[OF assms] pages_of_def)
  have one: "content_of (paginate content (int k + 1) L) = take (nat L) (drop (k * nat L) content)"
    if "k < nat ?T" for k
  proof -
    have "min (max 1 (int k + 1)) ?T = int k + 1" using that by auto
    moreover have "nat (int k * L) = k * nat L"
      using assms by (simp add: nat_mult_distrib)
    ultimately show ?thesis
      by (simp add: paginate_eq[OF assms] content_of_def)
  qed
  have "all_pages content L = map (\<lambda>p. content_of (paginate content p L)) [1 .. ?T]"
    by (simp add: all_pages_def pages)
  also have "\<dots> = map (\<lambda>k. content_of (paginate content (int k + 1) L)) [0..<nat ?T]"
    using T by (simp add: upto_as_upt comp_def)
  also have "\<dots> = map (\<lambda>k. take (nat L) (drop (k * nat L) content)) [0..<nat ?T]"
    using one by simp
  finally show ?thesis .
qed

text \<open>
  Claim C1. For every text and every page size above zero, the page contents of
  \<^verbatim>\<open>paginate\<close> for the pages 1 to \<^verbatim>\<open>total_pages\<close>, concatenated in order, are the
  text again, and page \<open>p\<close> is the slice from \<open>(p - 1) * limit\<close> to
  \<open>min (p * limit) (len text)\<close>.
\<close>

theorem paginate_concat_pages:
  assumes "0 < max_chars"
  shows "concat (all_pages content max_chars) = content \<and>
         (\<forall>p \<in> {1 .. pages_of (paginate content 1 max_chars)}.
            \<exists>r. paginate content p max_chars = Inr r \<and> page_number r = p \<and>
                total_pages r = pages_of (paginate content 1 max_chars) \<and>
                page_content r =
                  py_slice content ((p - 1) * max_chars) (min (p * max_chars) (int (length content))))"
proof
  let ?T = "page_count content max_chars"
  have "int (length content) \<le> ?T * max_chars"
    unfolding page_count_def using assms by (rule pages_cover)
  moreover have "0 \<le> ?T" by (simp add: page_count_def)
  ultimately have "length content \<le> nat ?T * nat max_chars"
    using assms by (metis nat_int nat_mono nat_mult_distrib)
  then show "concat (all_pages content max_chars) = content"
    by (simp add: all_pages_eq[OF assms] concat_chunks)
next
  let ?T = "page_count content max_chars"
  have pages: "pages_of (paginate content 1 max_chars) = ?T"
    by (simp add: paginate_eq[OF assms] pages_of_def)
  show "\<forall>p \<in> {1 .. pages_of (paginate content 1 max_chars)}.
            \<exists>r. paginate content p max_chars = Inr r \<and> page_number r = p \<and>
                total_pages r = pages_of (paginate content 1 max_chars) \<and>
                page_content r =
                  py_slice content ((p - 1) * max_chars) (min (p * max_chars) (int (length content)))"
  proof
    fix p assume "p \<in> {1 .. pages_of (paginate content 1 max_chars)}"
    then have p: "1 \<le> p" "p \<le> ?T" by (simp_all add: pages)
    then have m: "min (max 1 p) ?T = p" by simp
    have "0 \<le> (p - 1) * max_chars" using p assms by simp
    then have "py_slice content ((p - 1) * max_chars)
                 (min ((p - 1) * max_chars + max_chars) (int (length content)))
               = take (nat max_chars) (drop (nat ((p - 1) * max_chars)) content)"
      using assms by (rule py_slice_page)
    moreover have "(p - 1) * max_chars + max_chars = p * max_chars"
      by (simp add: algebra_simps)
    ultimately show "\<exists>r. paginate content p max_chars = Inr r \<and> page_number r = p \<and>
                total_pages r = pages_of (paginate content 1 max_chars) \<and>
                page_content r =
                  py_slice content ((p - 1) * max_chars) (min (p * max_chars) (int (length content)))"
      unfolding pages by (simp add: paginate_eq[OF assms] m)
  qed
qed


lemma last_page_start:
  assumes "0 < L" "content \<noteq> []"
  shows "nat ((page_count content L - 1) * L) < length content"
proof -
  let ?n = "int (length content)"
  have n: "1 \<le> ?n" using assms(2) by (cases content) auto
  have "?n + L - 1 = ((?n + L - 1) div L) * L + (?n + L - 1) mod L" by simp
  moreover have "0 \<le> (?n + L - 1) mod L" using assms(1) by simp
  ultimately have le: "((?n + L - 1) div L) * L \<le> ?n + L - 1" by linarith
  have "L \<le> ?n + L - 1" using n by linarith
  then have "0 < (?n + L - 1) div L"
    using pos_imp_zdiv_pos_iff[OF assms(1), of "?n + L - 1"] by blast
  then have "page_count content L = (?n + L - 1) div L" by (simp add: page_count_def)
  then have "(page_count content L - 1) * L \<le> ?n - 1"
    using le by (simp add: algebra_simps)
  then show ?thesis using n by linarith
qed

theorem paginate_concat_pages_witness:
  "concat (all_pages ''abcdefg'' 3) = ''abcdefg'' \<and>
   all_pages ''abcdefg'' 3 = [''abc'', ''def'', ''g'']"
proof -
  have "all_pages ''abcdefg'' 3 = [''abc'', ''def'', ''g'']"
    by code_simp
  moreover have "(0::int) < 3" by simp
  ultimately show ?thesis
    using paginate_concat_pages[of 3 "''abcdefg''"] by simp
qed

text \<open>
  Claim C6. For a page size above zero, \<^verbatim>\<open>paginate\<close> reports
  \<open>total_pages = max 1 (ceiling (len text / limit))\<close>; the empty text is page 1 of 1
  with empty content; a page number above \<^verbatim>\<open>total_pages\<close> gives the result of the last
  page, whose content is not empty unless the text is; a page number below 1 gives
  the result of page 1.
\<close>

theorem paginate_total_pages_clamp:
  assumes "0 < max_chars"
  shows "\<exists>r. paginate content page max_chars = Inr r \<and>
     total_pages r = max 1 \<lceil>real (length content) / real_of_int max_chars\<rceil> \<and>
     1 \<le> total_pages r \<and>
     page_number r = (if page < 1 then 1 else if page > total_pages r then total_pages r else page) \<and>
     (page > total_pages r \<longrightarrow>
        paginate content page max_chars = paginate content (total_pages r) max_chars \<and>
        (content \<noteq> [] \<longrightarrow> page_content r \<noteq> [])) \<and>
     (page < 1 \<longrightarrow> paginate content page max_chars = paginate content 1 max_chars) \<and>
     (content = [] \<longrightarrow>
        r = \<lparr>page_content = [], page_number = 1, total_pages = 1, total_chars = 0\<rparr>)"
proof -
  let ?T = "page_count content max_chars"
  let ?r = "\<lparr>page_content = take (nat max_chars)
                (drop (nat ((min (max 1 page) ?T - 1) * max_chars)) content),
             page_number = min (max 1 page) ?T,
             total_pages = ?T,
             total_chars = int (length content)\<rparr>"
  have T: "1 \<le> ?T" by (simp add: page_count_def)
  have ceil: "?T = max 1 \<lceil>real (length content) / real_of_int max_chars\<rceil>"
    using ceil_div[OF assms, of "int (length content)"] by (simp add: page_count_def)
  have pn: "min (max 1 page) ?T = (if page < 1 then 1 else if page > ?T then ?T else page)"
    using T by auto
  have above: "paginate content page max_chars = paginate content ?T max_chars" if "page > ?T"
  proof -
    have "min (max 1 page) ?T = min (max 1 ?T) ?T" using that T by auto
    then show ?thesis by (simp add: paginate_eq[OF assms])
  qed
  have nonempty: "page_content ?r \<noteq> []" if "page > ?T" "content \<noteq> []"
  proof -
    have "min (max 1 page) ?T = ?T" using that T by auto
    then show ?thesis
      using last_page_start[OF assms that(2)] assms by simp
  qed
  have below: "paginate content page max_chars = paginate content 1 max_chars" if "page < 1"
  proof -
    have "max 1 page = max 1 1" using that by auto
    then show ?thesis by (simp add: paginate_def clamp_page_def)
  qed
  have empty: "?r = \<lparr>page_content = [], page_number = 1, total_pages = 1, total_chars = 0\<rparr>"
    if "content = []"
  proof -
    have "?T = 1" using that assms by (simp add: page_count_def div_pos_pos_trivial)
    then show ?thesis using that by simp
  qed
  have "paginate content page max_chars = Inr ?r" by (rule paginate_eq[OF assms])
  then show ?thesis
    using ceil T pn above nonempty below empty by (intro exI[of _ ?r]) simp
qed

theorem paginate_total_pages_clamp_witness:
  "paginate ''abcdefg'' 9 3 = paginate ''abcdefg'' 3 3 \<and>
   paginate ''abcdefg'' 9 3 =
     Inr \<lparr>page_content = ''g'', page_number = 3, total_pages = 3, total_chars = 7\<rparr> \<and>
   paginate ''abcdefg'' (- 2) 3 = paginate ''abcdefg'' 1 3 \<and>
   paginate ([] :: string) 4 3 =
     Inr \<lparr>page_content = [], page_number = 1, total_pages = 1, total_chars = 0\<rparr>"
proof -
  have pos: "(0::int) < 3" by simp
  have nine: "paginate ''abcdefg'' 9 3 =
     Inr \<lparr>page_content = ''g'', page_number = 3, total_pages = 3, total_chars = 7\<rparr>"
    by code_simp
  from paginate_total_pages_clamp[OF pos, of "''abcdefg''" 9] nine
  have a: "paginate ''abcdefg'' 9 3 = paginate ''abcdefg'' 3 3" by auto
  from paginate_total_pages_clamp[OF pos, of "''abcdefg''" "- 2"]
  have b: "paginate ''abcdefg'' (- 2) 3 = paginate ''abcdefg'' 1 3" by auto
  from paginate_total_pages_clamp[OF pos, of "[] :: string" 4]
  have c: "paginate ([] :: string) 4 3 =
     Inr \<lparr>page_content = [], page_number = 1, total_pages = 1, total_chars = 0\<rparr>" by auto
  show ?thesis using a nine b c by simp
qed


section \<open>Ranking: proofs\<close>




















section \<open>Cache: proofs\<close>





lemma papers_evict: "papers (evict r st) = delete_row (arxiv_id r) (papers st)"
  by (simp add: evict_def)


lemma size_sweep_subset: "set (papers (size_sweep cfg st)) \<subseteq> set (papers st)"
proof (induction cfg st rule: size_sweep.induct)
  case (1 cfg st)
  show ?case
  proof (cases "get_total_size st > max_size_bytes cfg")
    case False
    then show ?thesis by (subst size_sweep.simps) simp
  next
    case over: True
    show ?thesis
    proof (cases "largest (papers st)")
      case None
      then show ?thesis using over by (subst size_sweep.simps) simp
    next
      case (Some r)
      then have "size_sweep cfg st = size_sweep cfg (evict r st)"
        using over by (subst size_sweep.simps) simp
      moreover have "set (papers (evict r st)) \<subseteq> set (papers st)"
        by (auto simp: papers_evict delete_row_def)
      ultimately show ?thesis using "1.IH"[OF over Some] by auto
    qed
  qed
qed



lemma papers_evict_all:
  "papers (evict_all rs st) = filter (\<lambda>r. arxiv_id r \<notin> arxiv_id ` set rs) (papers st)"
proof (induction rs arbitrary: st)
  case Nil
  show ?case by simp
next
  case (Cons a rs)
  have "papers (evict_all (a # rs) st)
        = filter (\<lambda>r. arxiv_id r \<notin> arxiv_id ` set rs) (delete_row (arxiv_id a) (papers st))"
    by (simp add: Cons.IH papers_evict)
  also have "\<dots> = filter (\<lambda>r. arxiv_id r \<notin> arxiv_id ` set (a # rs)) (papers st)"
    by (auto simp: delete_row_def intro: filter_cong)
  finally show ?case .
qed

lemma age_sweep_papers:
  assumes "distinct (map arxiv_id (papers st))"
  shows "papers (age_sweep cfg now st) =
         filter (\<lambda>r. cutoff_date cfg now \<le> created_at r) (papers st)"
proof -
  let ?c = "cutoff_date cfg now"
  have "(arxiv_id r \<notin> arxiv_id ` set (expired cfg now (papers st))) \<longleftrightarrow> ?c \<le> created_at r"
    if r: "r \<in> set (papers st)" for r
  proof
    assume "arxiv_id r \<notin> arxiv_id ` set (expired cfg now (papers st))"
    then have "r \<notin> set (expired cfg now (papers st))" by blast
    then show "?c \<le> created_at r" using r by (simp add: expired_def)
  next
    assume keep: "?c \<le> created_at r"
    show "arxiv_id r \<notin> arxiv_id ` set (expired cfg now (papers st))"
    proof
      assume "arxiv_id r \<in> arxiv_id ` set (expired cfg now (papers st))"
      then obtain x where x: "x \<in> set (papers st)" "created_at x < ?c" "arxiv_id x = arxiv_id r"
        by (auto simp: expired_def)
      then have "x = r" using assms r by (meson distinct_map inj_onD)
      then show False using x keep by simp
    qed
  qed
  then show ?thesis
    by (simp add: age_sweep_def papers_evict_all cong: filter_cong)
qed

text \<open>
  Claim C8. The age sweep deletes exactly the rows whose \<^verbatim>\<open>created_at\<close> lies strictly
  before the cutoff, which is \<open>now\<close> minus \<^verbatim>\<open>max_age_days\<close> days: a row created exactly
  at the cutoff stays, a row created one microsecond earlier goes. The keys of the
  table are distinct, as the primary key has it.
\<close>

theorem age_sweep_strictly_before_cutoff:
  assumes "distinct (map arxiv_id (papers st))"
  shows "cutoff_date cfg now = now - max_age_days cfg * 86400000000 \<and>
     papers (age_sweep cfg now st) =
       filter (\<lambda>r. \<not> created_at r < cutoff_date cfg now) (papers st) \<and>
     (\<forall>r \<in> set (papers st).
        (r \<notin> set (papers (age_sweep cfg now st)) \<longleftrightarrow> created_at r < cutoff_date cfg now) \<and>
        (created_at r = cutoff_date cfg now \<longrightarrow> r \<in> set (papers (age_sweep cfg now st))) \<and>
        (created_at r = cutoff_date cfg now - 1 \<longrightarrow> r \<notin> set (papers (age_sweep cfg now st))))"
proof -
  have eq: "papers (age_sweep cfg now st) =
       filter (\<lambda>r. \<not> created_at r < cutoff_date cfg now) (papers st)"
    by (simp add: age_sweep_papers[OF assms] not_less)
  have "cutoff_date cfg now = now - max_age_days cfg * 86400000000"
    by (simp add: cutoff_date_def usec_per_day_def)
  then show ?thesis unfolding eq by auto
qed
theorem age_sweep_strictly_before_cutoff_witness:
  "papers (age_sweep \<lparr>max_size_bytes = 1000000, max_age_days = 90\<rparr> 7776000001000
     (example_state [example_row ''a'' 10 1000, example_row ''b'' 10 999, example_row ''c'' 10 5000]))
   = [example_row ''a'' 10 1000, example_row ''c'' 10 5000] \<and>
   cutoff_date \<lparr>max_size_bytes = 1000000, max_age_days = 90\<rparr> 7776000001000 = 1000"
proof -
  let ?st = "example_state [example_row ''a'' 10 1000, example_row ''b'' 10 999, example_row ''c'' 10 5000]"
  let ?cfg = "\<lparr>max_size_bytes = 1000000, max_age_days = 90\<rparr>"
  have d: "distinct (map arxiv_id (papers ?st))"
    by (simp add: example_state_def example_row_def)
  have c: "cutoff_date ?cfg 7776000001000 = 1000"
    by (simp add: cutoff_date_def usec_per_day_def)
  from age_sweep_strictly_before_cutoff[OF d, of ?cfg 7776000001000]
  have "papers (age_sweep ?cfg 7776000001000 ?st) =
       filter (\<lambda>r. \<not> created_at r < cutoff_date ?cfg 7776000001000) (papers ?st)"
    by blast
  then have "papers (age_sweep ?cfg 7776000001000 ?st)
             = [example_row ''a'' 10 1000, example_row ''c'' 10 5000]"
    unfolding c by (simp add: example_state_def example_row_def)
  then show ?thesis using c by simp
qed




lemma find_append_split:
  "find P (xs @ ys) = (case find P xs of None \<Rightarrow> find P ys | Some x \<Rightarrow> Some x)"
  by (induction xs) auto

lemma select_insert_or_replace:
  "select_paper ident (insert_or_replace row rows) =
     (if ident = arxiv_id row then Some row else select_paper ident rows)"
proof -
  have gone: "find (\<lambda>r. arxiv_id r = k) (filter (\<lambda>r. arxiv_id r \<noteq> k) rows) = None" for k
    by (induction rows) auto
  have kept: "find (\<lambda>r. arxiv_id r = ident) (filter (\<lambda>r. arxiv_id r \<noteq> k) rows) =
              find (\<lambda>r. arxiv_id r = ident) rows" if "ident \<noteq> k" for k
    using that by (induction rows) auto
  show ?thesis
  proof (cases "ident = arxiv_id row")
    case True
    then show ?thesis
      using gone[of "arxiv_id row"]
      by (simp add: select_paper_def insert_or_replace_def delete_row_def find_append_split)
  next
    case False
    then show ?thesis
      using kept[OF False]
      by (simp add: select_paper_def insert_or_replace_def delete_row_def find_append_split
          split: option.splits)
  qed
qed

lemma age_sweep_subset: "set (papers (age_sweep cfg now st)) \<subseteq> set (papers st)"
  by (auto simp: age_sweep_def papers_evict_all)

lemma cleanup_subset: "set (papers (cleanup cfg now st)) \<subseteq> set (papers st)"
  unfolding cleanup_def using size_sweep_subset age_sweep_subset by blast

text \<open>
  Claim C3, as the code has it. \<^verbatim>\<open>save\<close> replaces the whole row of the key: the stored
  paths become the path arguments of the call (both \<^verbatim>\<open>None\<close> when they are left out),
  \<^verbatim>\<open>file_size\<close> is computed from the files of the path arguments (0 when they are left
  out), and \<^verbatim>\<open>created_at\<close> and \<^verbatim>\<open>last_accessed\<close> are the time of the call. The rows of
  other keys and the files are as before until the cleanup that follows, and any row of
  the key left after the cleanup is the new row.
\<close>

theorem save_replaces_whole_row:
  "\<exists>row st'. save cfg now now_cleanup st ident ttl abstr au publ pdf md = (row, st') \<and>
     row = \<lparr>arxiv_id = ident, title = ttl, abstract = abstr, authors = au, published = publ,
            pdf_path = pdf, markdown_path = md,
            file_size = path_size (files st) pdf + path_size (files st) md,
            created_at = now, last_accessed = now\<rparr> \<and>
     (pdf = None \<and> md = None \<longrightarrow>
        pdf_path row = None \<and> markdown_path row = None \<and> file_size row = 0) \<and>
     st' = cleanup cfg now_cleanup (st\<lparr>papers := insert_or_replace row (papers st)\<rparr>) \<and>
     select_paper ident (insert_or_replace row (papers st)) = Some row \<and>
     (\<forall>other. other \<noteq> ident \<longrightarrow>
        select_paper other (insert_or_replace row (papers st)) = select_paper other (papers st)) \<and>
     (\<forall>r \<in> set (papers st'). arxiv_id r = ident \<longrightarrow> r = row)"
proof -
  let ?row = "save_row now st ident ttl abstr au publ pdf md"
  let ?st1 = "st\<lparr>papers := insert_or_replace ?row (papers st)\<rparr>"
  let ?st' = "cleanup cfg now_cleanup ?st1"
  have id: "arxiv_id ?row = ident" by (simp add: save_row_def)
  have s: "save cfg now now_cleanup st ident ttl abstr au publ pdf md = (?row, ?st')"
    by (simp add: save_def Let_def)
  have r: "?row = \<lparr>arxiv_id = ident, title = ttl, abstract = abstr, authors = au, published = publ,
            pdf_path = pdf, markdown_path = md,
            file_size = path_size (files st) pdf + path_size (files st) md,
            created_at = now, last_accessed = now\<rparr>"
    by (simp add: save_row_def)
  have none: "pdf = None \<and> md = None \<longrightarrow>
        pdf_path ?row = None \<and> markdown_path ?row = None \<and> file_size ?row = 0"
    by (simp add: save_row_def path_size_def)
  have sel: "select_paper ident (insert_or_replace ?row (papers st)) = Some ?row"
    by (simp add: select_insert_or_replace id)
  have others: "\<forall>other. other \<noteq> ident \<longrightarrow>
        select_paper other (insert_or_replace ?row (papers st)) = select_paper other (papers st)"
    by (simp add: select_insert_or_replace id)
  have only: "\<forall>r \<in> set (papers ?st'). arxiv_id r = ident \<longrightarrow> r = ?row"
  proof (intro ballI impI)
    fix r assume "r \<in> set (papers ?st')" "arxiv_id r = ident"
    then have "r \<in> set (insert_or_replace ?row (papers st))" "arxiv_id r = ident"
      using cleanup_subset[of cfg now_cleanup ?st1] by auto
    then show "r = ?row"
      by (auto simp: insert_or_replace_def delete_row_def id)
  qed
  show ?thesis
    using s r none sel others only by (intro exI[of _ ?row] exI[of _ ?st']) (simp only: simp_thms)
qed
theorem save_replaces_whole_row_witness:
  "fst (save \<lparr>max_size_bytes = 1000000, max_age_days = 90\<rparr> 200 201
         (example_state [example_row ''x'' 0 100]) ''x'' ''t'' ''a'' ''[]'' ''2025-01-01'' None None)
   = example_row ''x'' 0 200"
proof -
  let ?cfg = "\<lparr>max_size_bytes = 1000000, max_age_days = 90\<rparr>"
  let ?st = "example_state [example_row ''x'' 0 100]"
  from save_replaces_whole_row[of ?cfg 200 201 ?st "''x''" "''t''" "''a''" "''[]''" "''2025-01-01''" None None]
  obtain row st' where
    s: "save ?cfg 200 201 ?st ''x'' ''t'' ''a'' ''[]'' ''2025-01-01'' None None = (row, st')" and
    r: "row = \<lparr>arxiv_id = ''x'', title = ''t'', abstract = ''a'', authors = ''[]'',
            published = ''2025-01-01'', pdf_path = None, markdown_path = None,
            file_size = path_size (files ?st) None + path_size (files ?st) None,
            created_at = 200, last_accessed = 200\<rparr>"
    by blast
  show ?thesis unfolding s r by (simp add: example_row_def path_size_def)
qed

theorem save_keeps_artifacts_counterexample:
  "select_paper ''x''
     [\<lparr>arxiv_id = ''x'', title = ''t'', abstract = ''a'', authors = ''[]'',
       published = ''2025-01-01'', pdf_path = Some ''/pdf/x.pdf'', markdown_path = Some ''/md/x.md'',
       file_size = 5000, created_at = 100, last_accessed = 100\<rparr>]
   = Some \<lparr>arxiv_id = ''x'', title = ''t'', abstract = ''a'', authors = ''[]'',
       published = ''2025-01-01'', pdf_path = Some ''/pdf/x.pdf'', markdown_path = Some ''/md/x.md'',
       file_size = 5000, created_at = 100, last_accessed = 100\<rparr> \<and>
   select_paper ''x'' (papers (snd (save \<lparr>max_size_bytes = 1000000, max_age_days = 90\<rparr> 200 201
     \<lparr>papers = [\<lparr>arxiv_id = ''x'', title = ''t'', abstract = ''a'', authors = ''[]'',
                  published = ''2025-01-01'', pdf_path = Some ''/pdf/x.pdf'',
                  markdown_path = Some ''/md/x.md'',
                  file_size = 5000, created_at = 100, last_accessed = 100\<rparr>],
      files = [''/pdf/x.pdf'' \<mapsto> 4000, ''/md/x.md'' \<mapsto> 1000]\<rparr>
     ''x'' ''t'' ''a'' ''[]'' ''2025-01-01'' None None)))
   = Some \<lparr>arxiv_id = ''x'', title = ''t'', abstract = ''a'', authors = ''[]'',
       published = ''2025-01-01'', pdf_path = None, markdown_path = None,
       file_size = 0, created_at = 200, last_accessed = 200\<rparr>"
proof -
  let ?cfg = "\<lparr>max_size_bytes = 1000000, max_age_days = 90\<rparr>"
  let ?new = "\<lparr>arxiv_id = ''x'', title = ''t'', abstract = ''a'', authors = ''[]'',
       published = ''2025-01-01'', pdf_path = None, markdown_path = None,
       file_size = 0, created_at = 200, last_accessed = 200\<rparr>"
  let ?st1 = "\<lparr>papers = [?new], files = [''/pdf/x.pdf'' \<mapsto> 4000 :: nat, ''/md/x.md'' \<mapsto> 1000]\<rparr>"
  have age: "age_sweep ?cfg 201 ?st1 = ?st1"
    by (simp add: age_sweep_def expired_def cutoff_date_def usec_per_day_def)
  have "size_sweep ?cfg ?st1 = ?st1"
    by (subst size_sweep.simps) (simp add: get_total_size_def)
  then have "cleanup ?cfg 201 ?st1 = ?st1"
    by (simp only: cleanup_def age)
  then show ?thesis
    by (simp add: save_def save_row_def Let_def insert_or_replace_def delete_row_def
        path_size_def select_paper_def)
qed
section \<open>Extraction chain: proofs\<close>

lemma fallback_called_iff:
  "Pymupdf \<in> set (engines_called (convert pdf_size markitdown pymupdf output_path)) \<longleftrightarrow>
     (\<exists>n. pdf_size = Some n \<and> 1000 \<le> n) \<and> pymupdf \<noteq> None \<and>
     (\<forall>t. markitdown = Some (MarkitdownReturns t) \<longrightarrow> t = [])"
proof (cases pdf_size)
  case None
  then show ?thesis by (simp add: convert_def)
next
  case (Some n)
  show ?thesis
  proof (cases "n < 1000")
    case True
    then show ?thesis using Some by (simp add: convert_def)
  next
    case False
    have called: "engines_called (convert pdf_size markitdown pymupdf output_path) =
                  snd (second_engine pymupdf (fst (first_engine markitdown))
                         (snd (snd (first_engine markitdown))))"
      using Some False
      by (simp add: convert_def split: prod.splits option.splits)
    have first: "Pymupdf \<notin> set (snd (snd (first_engine markitdown)))"
      by (simp add: first_engine_def split: option.splits markitdown_run.splits)
    have "Pymupdf \<in> set (snd (second_engine pymupdf (fst (first_engine markitdown))
                         (snd (snd (first_engine markitdown))))) \<longleftrightarrow>
          pymupdf \<noteq> None \<and> \<not> truthy (fst (first_engine markitdown))"
      using first
      by (auto simp: second_engine_def split: option.splits pymupdf_run.splits)
    moreover have "\<not> truthy (fst (first_engine markitdown)) \<longleftrightarrow>
                   (\<forall>t. markitdown = Some (MarkitdownReturns t) \<longrightarrow> t = [])"
      by (auto simp: first_engine_def truthy_def split: option.splits markitdown_run.splits)
    ultimately show ?thesis using called Some False by simp
  qed
qed

text \<open>
  Claim C4, at the input of its scenario. The first engine returns 40 characters, none
  of them white space, and the second engine is installed and would give a page of
  100 characters: \<^verbatim>\<open>convert\<close> calls the first engine only and fails with the exception
  of line 84; the second engine is not tried.
\<close>

theorem convert_short_primary_no_fallback:
  "convert (Some 20000) (Some (MarkitdownReturns (replicate 40 (CHR ''a''))))
     (Some (PymupdfPages [replicate 100 (CHR ''b'')])) None
   = \<lparr>engines_called = [Markitdown], outcome = Inl (ConversionFailed None), written_to = None\<rparr> \<and>
   length (strip (replicate 40 (CHR ''a''))) = 40 \<and>
   convert (Some 20000) None (Some (PymupdfPages [replicate 100 (CHR ''b'')])) None
   = \<lparr>engines_called = [Pymupdf],
      outcome = Inr (''## Page 1'' @ [CHR 0x0A, CHR 0x0A] @ replicate 100 (CHR ''b'')),
      written_to = None\<rparr>"
  by code_simp
section \<open>Download: proofs\<close>






section \<open>Time stamp text: proofs\<close>

lemma length_fixed_width: "length (fixed_width w n) = w"
  by (induction w arbitrary: n) simp_all

lemma text_less_append_same: "text_less (p @ r) (p @ s) = text_less r s"
  by (induction p) simp_all

lemma text_less_irrefl: "\<not> text_less xs xs"
  by (induction xs) simp_all

lemma text_less_append:
  "length xs = length ys \<Longrightarrow>
   text_less (xs @ r) (ys @ s) \<longleftrightarrow> text_less xs ys \<or> (xs = ys \<and> text_less r s)"
proof (induction xs arbitrary: ys)
  case Nil
  then show ?case by simp
next
  case (Cons x xs)
  then obtain y ys' where ys: "ys = y # ys'" "length xs = length ys'"
    by (cases ys) auto
  show ?case using Cons.IH[OF ys(2)] ys(1) by auto
qed

lemma digit_char: "k < 10 \<Longrightarrow> (of_char (char_of (48 + k) :: char) :: nat) = 48 + k"
  by (simp add: of_char_of)

lemma split_last_digit:
  "(n::nat) < m \<longleftrightarrow> n div 10 < m div 10 \<or> (n div 10 = m div 10 \<and> n mod 10 < m mod 10)"
proof -
  define a b c d where "a = n div 10" and "b = n mod 10" and "c = m div 10" and "d = m mod 10"
  have n: "n = 10 * a + b" and m: "m = 10 * c + d" and b: "b < 10" and d: "d < 10"
    by (simp_all add: a_def b_def c_def d_def)
  show ?thesis unfolding a_def[symmetric] b_def[symmetric] c_def[symmetric] d_def[symmetric]
    unfolding n m using b d by linarith
qed

lemma same_last_digit:
  "(n::nat) = m \<longleftrightarrow> n div 10 = m div 10 \<and> n mod 10 = m mod 10"
  by (metis div_mult_mod_eq)

lemma fixed_width_less:
  "n < 10 ^ w \<Longrightarrow> m < 10 ^ w \<Longrightarrow>
   (text_less (fixed_width w n) (fixed_width w m) \<longleftrightarrow> n < m) \<and>
   (fixed_width w n = fixed_width w m \<longleftrightarrow> n = m)"
proof (induction w arbitrary: n m)
  case 0
  then show ?case by simp
next
  case (Suc w)
  have n: "n div 10 < 10 ^ w" and m: "m div 10 < 10 ^ w"
    using Suc.prems by (simp_all add: less_mult_imp_div_less mult.commute)
  note IH = Suc.IH[OF n m]
  have len: "length (fixed_width w (n div 10)) = length (fixed_width w (m div 10))"
    by (simp add: length_fixed_width)
  have dn: "n mod 10 < 10" and dm: "m mod 10 < 10" by simp_all
  have last: "text_less [char_of (48 + n mod 10)] [char_of (48 + m mod 10)] \<longleftrightarrow> n mod 10 < m mod 10"
    using digit_char[OF dn] digit_char[OF dm] by auto
  have lasteq: "(char_of (48 + n mod 10) :: char) = char_of (48 + m mod 10) \<longleftrightarrow> n mod 10 = m mod 10"
    using digit_char[OF dn] digit_char[OF dm] by (metis add_left_cancel)
  have split: "n < m \<longleftrightarrow> n div 10 < m div 10 \<or> (n div 10 = m div 10 \<and> n mod 10 < m mod 10)"
    by (rule split_last_digit)
  have spliteq: "n = m \<longleftrightarrow> n div 10 = m div 10 \<and> n mod 10 = m mod 10"
    by (rule same_last_digit)
  let ?a = "fixed_width w (n div 10)" and ?b = "fixed_width w (m div 10)"
  let ?c = "char_of (48 + n mod 10) :: char" and ?d = "char_of (48 + m mod 10) :: char"
  have "text_less (?a @ [?c]) (?b @ [?d]) \<longleftrightarrow> text_less ?a ?b \<or> (?a = ?b \<and> text_less [?c] [?d])"
    by (rule text_less_append[OF len])
  also have "\<dots> \<longleftrightarrow> n div 10 < m div 10 \<or> (n div 10 = m div 10 \<and> n mod 10 < m mod 10)"
    using IH last by blast
  finally have less: "text_less (?a @ [?c]) (?b @ [?d]) \<longleftrightarrow> n < m"
    using split by blast
  have "?a @ [?c] = ?b @ [?d] \<longleftrightarrow> ?a = ?b \<and> ?c = ?d" by simp
  also have "\<dots> \<longleftrightarrow> n div 10 = m div 10 \<and> n mod 10 = m mod 10"
    using IH lasteq by blast
  finally have eq: "?a @ [?c] = ?b @ [?d] \<longleftrightarrow> n = m"
    using spliteq by blast
  show ?case using less eq by (simp only: fixed_width.simps) 
qed

lemma fraction_less:
  assumes "p < 1000000" "q < 1000000"
  shows "text_less (if p = 0 then [] else CHR ''.'' # fixed_width 6 p)
                   (if q = 0 then [] else CHR ''.'' # fixed_width 6 q) \<longleftrightarrow> p < q"
proof -
  have "text_less (fixed_width 6 p) (fixed_width 6 q) \<longleftrightarrow> p < q"
    using fixed_width_less[of p 6 q] assms by simp
  then show ?thesis by auto
qed

lemma isoformat_order:
  assumes "valid_datetime a" "valid_datetime b"
  shows "text_less (isoformat a) (isoformat b) \<longleftrightarrow> earlier a b"
proof -
  have Y: "text_less (fixed_width 4 (year a)) (fixed_width 4 (year b)) \<longleftrightarrow> year a < year b"
          "fixed_width 4 (year a) = fixed_width 4 (year b) \<longleftrightarrow> year a = year b"
    using fixed_width_less[of "year a" 4 "year b"] assms by (simp_all add: valid_datetime_def)
  have M: "text_less (fixed_width 2 (month a)) (fixed_width 2 (month b)) \<longleftrightarrow> month a < month b"
          "fixed_width 2 (month a) = fixed_width 2 (month b) \<longleftrightarrow> month a = month b"
    using fixed_width_less[of "month a" 2 "month b"] assms by (simp_all add: valid_datetime_def)
  have D: "text_less (fixed_width 2 (day a)) (fixed_width 2 (day b)) \<longleftrightarrow> day a < day b"
          "fixed_width 2 (day a) = fixed_width 2 (day b) \<longleftrightarrow> day a = day b"
    using fixed_width_less[of "day a" 2 "day b"] assms by (simp_all add: valid_datetime_def)
  have H: "text_less (fixed_width 2 (hour a)) (fixed_width 2 (hour b)) \<longleftrightarrow> hour a < hour b"
          "fixed_width 2 (hour a) = fixed_width 2 (hour b) \<longleftrightarrow> hour a = hour b"
    using fixed_width_less[of "hour a" 2 "hour b"] assms by (simp_all add: valid_datetime_def)
  have Mi: "text_less (fixed_width 2 (minute a)) (fixed_width 2 (minute b)) \<longleftrightarrow> minute a < minute b"
          "fixed_width 2 (minute a) = fixed_width 2 (minute b) \<longleftrightarrow> minute a = minute b"
    using fixed_width_less[of "minute a" 2 "minute b"] assms by (simp_all add: valid_datetime_def)
  have S: "text_less (fixed_width 2 (second a)) (fixed_width 2 (second b)) \<longleftrightarrow> second a < second b"
          "fixed_width 2 (second a) = fixed_width 2 (second b) \<longleftrightarrow> second a = second b"
    using fixed_width_less[of "second a" 2 "second b"] assms by (simp_all add: valid_datetime_def)
  have F: "text_less (if microsecond a = 0 then [] else CHR ''.'' # fixed_width 6 (microsecond a))
                     (if microsecond b = 0 then [] else CHR ''.'' # fixed_width 6 (microsecond b))
           \<longleftrightarrow> microsecond a < microsecond b"
    using assms by (intro fraction_less) (simp_all add: valid_datetime_def)
  have sep: "text_less (c # r) (c # s) = text_less r s" for c r s by simp
  have step: "text_less (fixed_width w n @ c # r) (fixed_width w m @ c # s) \<longleftrightarrow>
              text_less (fixed_width w n) (fixed_width w m) \<or>
              (fixed_width w n = fixed_width w m \<and> text_less r s)" for w n m c r s
    by (simp add: text_less_append length_fixed_width)
  have last: "text_less (fixed_width w n @ r) (fixed_width w m @ s) \<longleftrightarrow>
              text_less (fixed_width w n) (fixed_width w m) \<or>
              (fixed_width w n = fixed_width w m \<and> text_less r s)" for w n m r s
    by (simp add: text_less_append length_fixed_width)
  show ?thesis
    unfolding isoformat_def earlier_def
    by (simp only: append_Cons append_Nil sep step last Y M D H Mi S F)
qed

lemma isoformat_order_example:
  "isoformat \<lparr>year = 2025, month = 3, day = 9, hour = 7, minute = 5, second = 1, microsecond = 0\<rparr>
     = ''2025-03-09T07:05:01'' \<and>
   isoformat \<lparr>year = 2025, month = 3, day = 9, hour = 7, minute = 5, second = 1, microsecond = 20\<rparr>
     = ''2025-03-09T07:05:01.000020'' \<and>
   text_less ''2025-03-09T07:05:01'' ''2025-03-09T07:05:01.000020''"
  by code_simp

end
